theory Spec2Isabelle
  imports Main
begin

section \<open>DBMS\_ASSERT: identifier validation of orafce (src/assert.c)\<close>

text \<open>
  A shallow embedding of \<^verbatim>\<open>src/assert.c\<close>. Bytes are \<^typ>\<open>char\<close>, a \<^verbatim>\<open>text\<close>
  datum is the list of its \<^verbatim>\<open>VARSIZE - VARHDRSZ\<close> payload bytes, and an SQL argument
  that may be NULL is a \<^typ>\<open>string option\<close>. An \<^verbatim>\<open>ereport(ERROR, ...)\<close> ends the
  call, so every entry point returns a sum: \<open>Inl\<close> the error, \<open>Inr\<close> the datum returned.
\<close>

subsection \<open>Errors\<close>

text \<open>The four \<^verbatim>\<open>ERRCODE_ORA_PACKAGES_*\<close> codes raised through \<^verbatim>\<open>CUSTOM_EXCEPTION\<close>.\<close>

datatype errcode =
    INVALID_SCHEMA_NAME
  | INVALID_OBJECT_NAME
  | ISNOT_SIMPLE_SQL_NAME
  | ISNOT_QUALIFIED_SQL_NAME

text \<open>
  \<open>Ereport c\<close> is one of the four exceptions of this file. \<open>ReadPastEnd\<close> is not
  raised by the C code: it marks, in the model, a read of a byte that lies outside the
  bytes the function was given (undefined behaviour in C). \<open>HostError\<close> is an error
  raised inside a PostgreSQL function that this file calls.
\<close>

datatype error = Ereport errcode | ReadPastEnd | HostError

subsection \<open>Characters and \<^verbatim>\<open>ctype.h\<close>\<close>

definition dquote :: char where
  "dquote = CHR 0x22"

definition squote :: char where
  "squote = CHR 0x27"

definition NUL :: char where
  "NUL = CHR 0x00"

text \<open>
  \<^verbatim>\<open>isalnum\<close> and \<^verbatim>\<open>isspace\<close> of the C library, in the "C" locale: ASCII letters and
  digits; space and the five control characters \<^verbatim>\<open>\t \n \v \f \r\<close>. Bytes above 127
  are in neither class (the source: "Doesn't allow national characters in sql name").
\<close>

definition isalnum :: "char \<Rightarrow> bool" where
  "isalnum c =
     (let n = (of_char c :: nat)
      in (48 \<le> n \<and> n \<le> 57) \<or> (65 \<le> n \<and> n \<le> 90) \<or> (97 \<le> n \<and> n \<le> 122))"

definition isspace :: "char \<Rightarrow> bool" where
  "isspace c = (let n = (of_char c :: nat) in n = 32 \<or> (9 \<le> n \<and> n \<le> 13))"

subsection \<open>\<^verbatim>\<open>check_sql_name\<close> (lines 286-316)\<close>

text \<open>
  \<^verbatim>\<open>check_sql_name(char *cp, int len)\<close>. The pointer \<open>cp\<close> is modelled by the list of
  the bytes of the datum from \<open>cp\<close> to the datum's end, so \<^verbatim>\<open>cp++\<close> is the tail and
  \<^verbatim>\<open>*cp\<close> on the empty list is a read past the end. \<open>len\<close> is the C \<^verbatim>\<open>int\<close>; it stays
  between \<open>-3\<close> and the datum's size (below \<open>2^30\<close>), so it never wraps and is an
  \<^typ>\<open>int\<close> here.
\<close>

text \<open>
  The loop of the quoted branch, entered after \<^verbatim>\<open>cp++, len -= 2\<close>:
  \<^verbatim>\<open>for (...; len-- > 0; cp++) { if (*cp == '"') { if (len-- == 0) return false;
  if (*cp != '"') return false; } }\<close> followed by \<^verbatim>\<open>if (*cp != '"') return false;\<close>
  and \<^verbatim>\<open>return true\<close>. The test "next char has to be quote" reads \<^verbatim>\<open>*cp\<close> again
  without advancing \<open>cp\<close>: it is written here as the source has it. When \<open>cp\<close>
  has reached the end of the datum, both the loop body and the test after the loop read
  \<^verbatim>\<open>*cp\<close> first, whatever \<open>len\<close> is.
\<close>

fun check_quoted :: "string \<Rightarrow> int \<Rightarrow> error + bool" where
  "check_quoted [] len = Inl ReadPastEnd"
| "check_quoted (c # cp) len =
     (if len > 0 then
        (if c = dquote then
           (if len - 1 = 0 then Inr False
            else if c \<noteq> dquote then Inr False
            else check_quoted cp (len - 2))
         else check_quoted cp (len - 1))
      else if c \<noteq> dquote then Inr False
      else Inr True)"

text \<open>
  The loop of the unquoted branch:
  \<^verbatim>\<open>for (; len-- > 0; cp++) if (!isalnum(*cp) && *cp != '_') return false;\<close>
\<close>

fun check_unquoted :: "string \<Rightarrow> int \<Rightarrow> error + bool" where
  "check_unquoted [] len = (if len > 0 then Inl ReadPastEnd else Inr True)"
| "check_unquoted (c # cp) len =
     (if len > 0 then
        (if \<not> isalnum c \<and> c \<noteq> CHR ''_'' then Inr False
         else check_unquoted cp (len - 1))
      else Inr True)"

definition check_sql_name :: "string \<Rightarrow> int \<Rightarrow> error + bool" where
  "check_sql_name cp len =
     (case cp of
        [] \<Rightarrow> Inl ReadPastEnd
      | c # cp' \<Rightarrow>
          if c = dquote then check_quoted cp' (len - 2)
          else check_unquoted cp len)"

subsection \<open>\<^verbatim>\<open>dbms_assert_simple_sql_name\<close> (lines 318-339)\<close>

definition EMPTY_STR :: "string \<Rightarrow> bool" where
  "EMPTY_STR str = (length str = 0)"

definition dbms_assert_simple_sql_name :: "string option \<Rightarrow> error + string" where
  "dbms_assert_simple_sql_name arg =
     (case arg of
        None \<Rightarrow> Inl (Ereport ISNOT_SIMPLE_SQL_NAME)
      | Some sname \<Rightarrow>
          if EMPTY_STR sname then Inl (Ereport ISNOT_SIMPLE_SQL_NAME)
          else
            (case check_sql_name sname (int (length sname)) of
               Inl e \<Rightarrow> Inl e
             | Inr ok \<Rightarrow>
                 if \<not> ok then Inl (Ereport ISNOT_SIMPLE_SQL_NAME)
                 else Inr sname))"

subsection \<open>C strings\<close>

text \<open>
  A \<^verbatim>\<open>char *\<close> into a NUL-terminated buffer is modelled by the list of the bytes from
  the pointer up to, and not including, the terminating NUL: \<^verbatim>\<open>*p\<close> is the head (NUL
  on the empty list), \<^verbatim>\<open>p + 1\<close> is the tail. \<^verbatim>\<open>text_to_cstring\<close> copies the payload
  into a fresh buffer and appends the NUL, so the C string ends at the first NUL byte.
\<close>

definition text_to_cstring :: "string \<Rightarrow> string" where
  "text_to_cstring t = takeWhile (\<lambda>c. c \<noteq> NUL) t"

definition deref :: "string \<Rightarrow> char" where
  "deref p = (case p of [] \<Rightarrow> NUL | c # _ \<Rightarrow> c)"

text \<open>\<^verbatim>\<open>while (isspace((unsigned char) *nextp)) nextp++;\<close>\<close>

fun skip_space :: "string \<Rightarrow> string" where
  "skip_space [] = []"
| "skip_space (c # p) = (if isspace c then skip_space p else c # p)"

text \<open>\<^verbatim>\<open>strchr(p, c)\<close> for \<open>c \<noteq> NUL\<close>: the pointer to the first \<open>c\<close>, or NULL.\<close>

fun strchr :: "string \<Rightarrow> char \<Rightarrow> string option" where
  "strchr [] c = None"
| "strchr (x # p) c = (if x = c then Some (x # p) else strchr p c)"

subsection \<open>\<^verbatim>\<open>ParseIdentifierString\<close> (lines 50-121)\<close>

text \<open>
  The C function returns only a \<^verbatim>\<open>bool\<close>, but in every iteration it delimits one name
  by \<open>curname\<close> and \<open>endp\<close>. The model records that name, the bytes of the buffer in
  \<open>[curname, endp)\<close> and the branch that read it, so that statements about the parts of
  a qualified name have something to speak about.
\<close>

datatype part = Quoted string | Unquoted string

fun part_text :: "part \<Rightarrow> string" where
  "part_text (Quoted t) = t"
| "part_text (Unquoted t) = t"

fun was_quoted :: "part \<Rightarrow> bool" where
  "was_quoted (Quoted t) = True"
| "was_quoted (Unquoted t) = False"

lemma strchr_length: "strchr p c = Some e \<Longrightarrow> e \<noteq> [] \<and> length e \<le> length p"
  by (induction p) (auto split: if_splits)

text \<open>
  The \<^verbatim>\<open>for (;;)\<close> loop of the quoted branch (lines 72-82). \<open>p\<close> is \<^verbatim>\<open>nextp + 1\<close>, the
  argument of \<^verbatim>\<open>strchr\<close>; \<open>nm\<close> is the buffer text in \<open>[curname, nextp + 1)\<close>.
  \<^verbatim>\<open>memmove(endp, endp + 1, strlen(endp))\<close> moves the rest of the string, with its NUL,
  one byte down: the string at \<open>endp\<close> becomes its own tail, which starts with the second
  quote of the pair, and the next search starts behind that quote. The result is the
  name and \<^verbatim>\<open>endp + 1\<close>; \<open>None\<close> is \<^verbatim>\<open>return false\<close> (mismatched quotes).
\<close>

function quoted_name :: "string \<Rightarrow> string \<Rightarrow> (string \<times> string) option" where
  "quoted_name nm p =
     (case strchr p dquote of
        None \<Rightarrow> None
      | Some endp \<Rightarrow>
          let nm' = nm @ take (length p - length endp) p in
          if deref (tl endp) \<noteq> dquote then Some (nm', tl endp)
          else quoted_name (nm' @ [dquote]) (tl (tl endp)))"
  by pat_completeness auto
termination
proof (relation "measure (\<lambda>(nm, p). length p)")
  show "wf (measure (\<lambda>(nm, p). length p))" by simp
next
  fix nm p :: string and endp nm'
  assume "strchr p dquote = Some endp"
  then have "endp \<noteq> []" "length endp \<le> length p"
    using strchr_length by blast+
  then show "((nm' @ [dquote], tl (tl endp)), (nm, p)) \<in> measure (\<lambda>(nm, p). length p)"
    by (cases endp) auto
qed

declare quoted_name.simps [simp del]

text \<open>
  The \<^verbatim>\<open>while\<close> loop of the unquoted branch (lines 90-96): the new \<open>nextp\<close>, or \<open>None\<close>
  for \<^verbatim>\<open>return false\<close>.
\<close>

fun unquoted_name :: "string \<Rightarrow> string option" where
  "unquoted_name [] = Some []"
| "unquoted_name (c # p) =
     (if c \<noteq> NUL \<and> c \<noteq> CHR ''.'' \<and> \<not> isspace c then
        (if \<not> isalnum c \<and> c \<noteq> CHR ''_'' then None
         else unquoted_name p)
      else Some (c # p))"

text \<open>
  One name (lines 68-100): the part read and the new \<open>nextp\<close>. \<open>nextp'\<close> points into
  the string at \<open>nextp\<close>, so the pointer test \<^verbatim>\<open>curname == nextp\<close> is equality of the two
  lists.
\<close>

definition next_part :: "string \<Rightarrow> (part \<times> string) option" where
  "next_part nextp =
     (if deref nextp = dquote then
        (case quoted_name [] (tl nextp) of
           None \<Rightarrow> None
         | Some (nm, nextp') \<Rightarrow> Some (Quoted nm, nextp'))
      else
        (case unquoted_name nextp of
           None \<Rightarrow> None
         | Some nextp' \<Rightarrow>
             if nextp' = nextp then None
             else Some (Unquoted (take (length nextp - length nextp') nextp), nextp')))"

lemma skip_space_length: "length (skip_space p) \<le> length p"
  by (induction p) auto

lemma quoted_name_length: "quoted_name nm p = Some (t, n) \<Longrightarrow> length n \<le> length p"
proof (induction nm p rule: quoted_name.induct)
  case (1 nm p)
  from "1.prems" obtain endp where e: "strchr p dquote = Some endp"
    by (auto simp: quoted_name.simps [of nm p] split: option.splits)
  then have le: "endp \<noteq> []" "length endp \<le> length p"
    using strchr_length by blast+
  show ?case
  proof (cases "deref (tl endp) \<noteq> dquote")
    case True
    with "1.prems" e have "n = tl endp"
      by (simp add: quoted_name.simps [of nm p] Let_def)
    with le show ?thesis by simp
  next
    case False
    with "1.prems" e
    have "quoted_name ((nm @ take (length p - length endp) p) @ [dquote]) (tl (tl endp)) = Some (t, n)"
      by (simp add: quoted_name.simps [of nm p] Let_def)
    with "1.IH" [OF e refl] False have "length n \<le> length (tl (tl endp))"
      by simp
    with le show ?thesis by simp
  qed
qed

lemma unquoted_name_length: "unquoted_name p = Some n \<Longrightarrow> length n \<le> length p"
  by (induction p arbitrary: n) (auto split: if_splits simp: le_SucI)

lemma next_part_length: "next_part nextp = Some (pt, n) \<Longrightarrow> length n \<le> length nextp"
  unfolding next_part_def
  by (auto split: if_splits option.splits dest!: quoted_name_length unquoted_name_length
      intro: order_trans)

text \<open>
  The \<^verbatim>\<open>do ... while (!done)\<close> loop (lines 63-118): the parts read from \<open>nextp\<close> to the end
  of the string, or \<open>None\<close> for \<^verbatim>\<open>return false\<close>.
\<close>

function parse_loop :: "string \<Rightarrow> part list option" where
  "parse_loop nextp =
     (case next_part nextp of
        None \<Rightarrow> None
      | Some (pt, nextp1) \<Rightarrow>
          let nextp2 = skip_space nextp1 in
          if deref nextp2 = CHR ''.'' then
            (case parse_loop (skip_space (tl nextp2)) of
               None \<Rightarrow> None
             | Some pts \<Rightarrow> Some (pt # pts))
          else if deref nextp2 = NUL then Some [pt]
          else None)"
  by pat_completeness auto
termination
proof (relation "measure length")
  show "wf (measure length)" by simp
next
  fix nextp :: string and x2 pt nextp1 nextp2
  assume np: "next_part nextp = Some x2" "(pt, nextp1) = x2"
    and n2: "nextp2 = skip_space nextp1"
    and dot: "deref nextp2 = CHR ''.''"
  from dot have "nextp2 \<noteq> []"
    by (auto simp: deref_def NUL_def)
  then have "length (tl nextp2) < length nextp2"
    by (cases nextp2) auto
  moreover have "length (skip_space (tl nextp2)) \<le> length (tl nextp2)"
    by (rule skip_space_length)
  moreover have "length nextp2 \<le> length nextp1"
    using n2 skip_space_length by simp
  moreover have "length nextp1 \<le> length nextp"
    using np next_part_length by auto
  ultimately show "(skip_space (tl nextp2), nextp) \<in> measure length"
    by simp
qed

declare parse_loop.simps [simp del]

text \<open>The whole function: leading whitespace, the empty string, then the loop.\<close>

definition parse_names :: "string \<Rightarrow> part list option" where
  "parse_names rawstring =
     (let nextp = skip_space rawstring
      in if deref nextp = NUL then Some [] else parse_loop nextp)"

definition ParseIdentifierString :: "string \<Rightarrow> bool" where
  "ParseIdentifierString rawstring =
     (case parse_names rawstring of None \<Rightarrow> False | Some pts \<Rightarrow> True)"

subsection \<open>\<^verbatim>\<open>dbms_assert_qualified_sql_name\<close> (lines 206-222)\<close>

text \<open>
  The parser works on the copy made by \<^verbatim>\<open>text_to_cstring\<close>; the datum \<open>qname\<close> that is
  returned is the argument itself.
\<close>

definition dbms_assert_qualified_sql_name :: "string option \<Rightarrow> error + string" where
  "dbms_assert_qualified_sql_name arg =
     (case arg of
        None \<Rightarrow> Inl (Ereport ISNOT_QUALIFIED_SQL_NAME)
      | Some qname \<Rightarrow>
          if EMPTY_STR qname then Inl (Ereport ISNOT_QUALIFIED_SQL_NAME)
          else if \<not> ParseIdentifierString (text_to_cstring qname)
          then Inl (Ereport ISNOT_QUALIFIED_SQL_NAME)
          else Inr qname)"

subsection \<open>\<^verbatim>\<open>dbms_assert_schema_name\<close> and \<^verbatim>\<open>dbms_assert_object_name\<close>\<close>

text \<open>
  The PostgreSQL functions these two entry points call are parameters of the model.
  \<^verbatim>\<open>stringToQualifiedNameList\<close> and \<^verbatim>\<open>RangeVarGetRelid(makeRangeVarFromNameList(...))\<close>
  may raise an error of their own; \<^verbatim>\<open>pg_namespace_aclcheck\<close> is reduced to the test
  \<^verbatim>\<open>aclresult == ACLCHECK_OK\<close>. An \<^verbatim>\<open>Oid\<close> is a natural number, \<^verbatim>\<open>InvalidOid\<close> is 0.
\<close>

record host =
  stringToQualifiedNameList :: "string \<Rightarrow> error + string list"
  GetSysCacheOid :: "string \<Rightarrow> nat"
  pg_namespace_aclcheck :: "nat \<Rightarrow> bool"
  RangeVarGetRelid :: "string list \<Rightarrow> error + nat"

definition OidIsValid :: "nat \<Rightarrow> bool" where
  "OidIsValid objectId = (objectId \<noteq> 0)"

definition dbms_assert_schema_name :: "host \<Rightarrow> string option \<Rightarrow> error + string" where
  "dbms_assert_schema_name h arg =
     (case arg of
        None \<Rightarrow> Inl (Ereport INVALID_SCHEMA_NAME)
      | Some sname \<Rightarrow>
          if EMPTY_STR sname then Inl (Ereport INVALID_SCHEMA_NAME)
          else
            (case stringToQualifiedNameList h (text_to_cstring sname) of
               Inl e \<Rightarrow> Inl e
             | Inr names \<Rightarrow>
                 if length names \<noteq> 1 then Inl (Ereport INVALID_SCHEMA_NAME)
                 else
                   let namespaceId = GetSysCacheOid h (hd names) in
                   if \<not> OidIsValid namespaceId then Inl (Ereport INVALID_SCHEMA_NAME)
                   else if \<not> pg_namespace_aclcheck h namespaceId
                   then Inl (Ereport INVALID_SCHEMA_NAME)
                   else Inr sname))"

definition dbms_assert_object_name :: "host \<Rightarrow> string option \<Rightarrow> error + string" where
  "dbms_assert_object_name h arg =
     (case arg of
        None \<Rightarrow> Inl (Ereport INVALID_OBJECT_NAME)
      | Some str \<Rightarrow>
          if EMPTY_STR str then Inl (Ereport INVALID_OBJECT_NAME)
          else
            (case stringToQualifiedNameList h (text_to_cstring str) of
               Inl e \<Rightarrow> Inl e
             | Inr names \<Rightarrow>
                 (case RangeVarGetRelid h names of
                    Inl e \<Rightarrow> Inl e
                  | Inr classId \<Rightarrow>
                      if \<not> OidIsValid classId then Inl (Ereport INVALID_OBJECT_NAME)
                      else Inr str)))"

subsection \<open>\<^verbatim>\<open>dbms_assert_enquote_literal\<close> (lines 137-141)\<close>

text \<open>
  Modelled from the spec: \<^verbatim>\<open>quote_literal\<close>, the PostgreSQL function to which
  \<^verbatim>\<open>dbms_assert_enquote_literal\<close> hands its argument, is not part of \<^verbatim>\<open>src/\<close>. The spec
  (4.4): it "wraps value in single quotes, doubling every embedded single-quote
  character; performs no other interpretation of the content".
\<close>

fun double_squotes :: "string \<Rightarrow> string" where
  "double_squotes [] = []"
| "double_squotes (c # cs) =
     (if c = squote then squote # squote # double_squotes cs
      else c # double_squotes cs)"

definition quote_literal :: "string \<Rightarrow> string" where
  "quote_literal v = squote # double_squotes v @ [squote]"

definition dbms_assert_enquote_literal :: "string \<Rightarrow> string" where
  "dbms_assert_enquote_literal str = quote_literal str"

subsection \<open>Vocabulary of the specification\<close>

text \<open>
  \<open>paired q s\<close>: read from the left, every \<open>q\<close> in \<open>s\<close> is immediately followed by a
  second \<open>q\<close>, the two forming one pair ("quotes occur only in \<open>qq\<close> pairs").
\<close>

fun paired :: "char \<Rightarrow> string \<Rightarrow> bool" where
  "paired q [] = True"
| "paired q [c] = (c \<noteq> q)"
| "paired q (c # d # cs) = (if c = q then d = q \<and> paired q cs else paired q (d # cs))"

text \<open>The text strictly between the first and the last byte of a string.\<close>

definition interior :: "string \<Rightarrow> string" where
  "interior s = butlast (tl s)"

text \<open>
  The quoted simple name as the specification words it (4.3): the string starts and ends
  with the quote, holds at least the two delimiting quotes, and its interior has quotes
  in pairs only.
\<close>

definition spec_quoted_simple_name :: "string \<Rightarrow> bool" where
  "spec_quoted_simple_name s =
     (2 \<le> length s \<and> hd s = dquote \<and> last s = dquote \<and> paired dquote (interior s))"

definition simple_char :: "char \<Rightarrow> bool" where
  "simple_char c = (isalnum c \<or> c = CHR ''_'')"

subsection \<open>An invariant of the parser loop\<close>

text \<open>
  The loop invariant used for the separator dots: in front of a tail \<open>T\<close> that starts
  with a dot, the text \<open>p\<close> still to be read holds an even number of double quotes, so
  that the dot is not inside a quoted name; or \<open>T\<close> holds no double quote at all, so
  that a quoted name that runs into \<open>T\<close> is never closed.
\<close>

definition sep_inv :: "string \<Rightarrow> string \<Rightarrow> bool" where
  "sep_inv T p = (even (count_list p dquote) \<or> dquote \<notin> set T)"

section \<open>Properties\<close>

subsection \<open>The guards of the entry points\<close>

text \<open>
  C7. For each of the four guarded checks (qualified\_sql\_name, simple\_sql\_name,
  schema\_name, object\_name) a NULL argument fails with the check's own error code
  (ISNOT\_QUALIFIED\_SQL\_NAME, ISNOT\_SIMPLE\_SQL\_NAME, INVALID\_SCHEMA\_NAME,
  INVALID\_OBJECT\_NAME), whatever the host functions would do: no other error is raised.
\<close>

theorem null_input_rejected:
  "dbms_assert_qualified_sql_name None = Inl (Ereport ISNOT_QUALIFIED_SQL_NAME)
   \<and> dbms_assert_simple_sql_name None = Inl (Ereport ISNOT_SIMPLE_SQL_NAME)
   \<and> dbms_assert_schema_name h None = Inl (Ereport INVALID_SCHEMA_NAME)
   \<and> dbms_assert_object_name h None = Inl (Ereport INVALID_OBJECT_NAME)"
  by (simp add: dbms_assert_qualified_sql_name_def dbms_assert_simple_sql_name_def
      dbms_assert_schema_name_def dbms_assert_object_name_def)

text \<open>
  C6. On the empty string the parser succeeds with zero parts, yet
  qualified\_sql\_name rejects the empty string with ISNOT\_QUALIFIED\_SQL\_NAME: the
  \<^verbatim>\<open>EMPTY_STR\<close> guard fires before the parser is called.
\<close>

theorem empty_string_parser_and_guard:
  "parse_names (text_to_cstring []) = Some []
   \<and> ParseIdentifierString (text_to_cstring [])
   \<and> EMPTY_STR []
   \<and> dbms_assert_qualified_sql_name (Some []) = Inl (Ereport ISNOT_QUALIFIED_SQL_NAME)"
  by (simp add: parse_names_def ParseIdentifierString_def text_to_cstring_def deref_def
      EMPTY_STR_def dbms_assert_qualified_sql_name_def)

text \<open>
  C4. Whenever qualified\_sql\_name or simple\_sql\_name succeeds, the value returned is
  the argument, byte for byte.
\<close>

theorem accepted_value_is_input:
  assumes "dbms_assert_qualified_sql_name arg = Inr r \<or> dbms_assert_simple_sql_name arg = Inr r"
  shows "arg = Some r"
  using assms
  by (auto simp: dbms_assert_qualified_sql_name_def dbms_assert_simple_sql_name_def
      split: option.splits if_splits sum.splits)

theorem accepted_value_is_input_witness:
  "(dbms_assert_qualified_sql_name (Some ''schema.table'') = Inr ''schema.table''
    \<or> dbms_assert_simple_sql_name (Some ''schema.table'') = Inr ''schema.table'')
   \<and> Some ''schema.table'' = Some ''schema.table''"
proof
  show h: "dbms_assert_qualified_sql_name (Some ''schema.table'') = Inr ''schema.table''
      \<or> dbms_assert_simple_sql_name (Some ''schema.table'') = Inr ''schema.table''"
    by code_simp
  show "Some ''schema.table'' = Some ''schema.table''"
    by (rule accepted_value_is_input [OF h])
qed

subsection \<open>Whitespace\<close>

lemma isspace_not_NUL: "isspace c \<Longrightarrow> c \<noteq> NUL"
  by (auto simp: isspace_def NUL_def)

lemma skip_space_all: "list_all isspace s \<Longrightarrow> skip_space s = []"
  by (induction s) auto

lemma text_to_cstring_id: "NUL \<notin> set s \<Longrightarrow> text_to_cstring s = s"
  by (auto simp: text_to_cstring_def takeWhile_eq_all_conv)

text \<open>
  C10. Every non-empty string made of whitespace only is accepted by
  qualified\_sql\_name and returned unchanged: it passes the \<^verbatim>\<open>EMPTY_STR\<close> guard, and the
  parser skips the whitespace, finds the end of the string and succeeds with zero parts.
\<close>

theorem whitespace_only_accepted:
  assumes "s \<noteq> []" and "list_all isspace s"
  shows "\<not> EMPTY_STR s
    \<and> parse_names (text_to_cstring s) = Some []
    \<and> dbms_assert_qualified_sql_name (Some s) = Inr s"
proof -
  from assms(2) have "NUL \<notin> set s"
    using isspace_not_NUL by (auto simp: list_all_iff)
  then have c: "text_to_cstring s = s"
    by (rule text_to_cstring_id)
  have p: "parse_names s = Some []"
    using assms(2) by (simp add: parse_names_def skip_space_all deref_def)
  from assms(1) have e: "\<not> EMPTY_STR s"
    by (simp add: EMPTY_STR_def)
  from c p e show ?thesis
    by (simp add: dbms_assert_qualified_sql_name_def ParseIdentifierString_def)
qed

theorem whitespace_only_accepted_witness:
  "[CHR 0x20, CHR 0x09] \<noteq> [] \<and> list_all isspace [CHR 0x20, CHR 0x09]
   \<and> dbms_assert_qualified_sql_name (Some [CHR 0x20, CHR 0x09]) = Inr [CHR 0x20, CHR 0x09]"
proof -
  have h1: "[CHR 0x20, CHR 0x09] \<noteq> []" by simp
  have h2: "list_all isspace [CHR 0x20, CHR 0x09]" by (simp add: isspace_def)
  from whitespace_only_accepted [OF h1 h2] h1 h2 show ?thesis by simp
qed

subsection \<open>The simple name validator, unquoted branch\<close>

lemma check_unquoted_all:
  "check_unquoted cp (int (length cp)) = Inr (list_all simple_char cp)"
  by (induction cp) (auto simp: simple_char_def)

text \<open>
  C3. For every string that does not begin with a double quote, simple\_sql\_name accepts
  if and only if the string is non-empty and each of its bytes is an ASCII letter, a digit
  or an underscore; otherwise the call fails with ISNOT\_SIMPLE\_SQL\_NAME.
\<close>

theorem unquoted_simple_name:
  assumes "s = [] \<or> hd s \<noteq> dquote"
  shows "dbms_assert_simple_sql_name (Some s) =
    (if s \<noteq> [] \<and> list_all simple_char s then Inr s
     else Inl (Ereport ISNOT_SIMPLE_SQL_NAME))"
proof (cases s)
  case Nil
  then show ?thesis
    by (simp add: dbms_assert_simple_sql_name_def EMPTY_STR_def)
next
  case (Cons c cp)
  with assms have "c \<noteq> dquote" by simp
  then have "check_sql_name s (int (length s)) = Inr (list_all simple_char s)"
    unfolding check_sql_name_def Cons using check_unquoted_all [of "c # cp"] by simp
  then show ?thesis
    using Cons by (simp add: dbms_assert_simple_sql_name_def EMPTY_STR_def)
qed

theorem unquoted_simple_name_witness:
  "(''emp_1'' = [] \<or> hd ''emp_1'' \<noteq> dquote)
   \<and> dbms_assert_simple_sql_name (Some ''emp_1'') = Inr ''emp_1''
   \<and> (''emp-1'' = [] \<or> hd ''emp-1'' \<noteq> dquote)
   \<and> dbms_assert_simple_sql_name (Some ''emp-1'') = Inl (Ereport ISNOT_SIMPLE_SQL_NAME)"
proof -
  have h1: "''emp_1'' = [] \<or> hd ''emp_1'' \<noteq> dquote" by (simp add: dquote_def)
  have h2: "''emp-1'' = [] \<or> hd ''emp-1'' \<noteq> dquote" by (simp add: dquote_def)
  from unquoted_simple_name [OF h1] unquoted_simple_name [OF h2] h1 h2
  show ?thesis by (simp add: simple_char_def isalnum_def)
qed

subsection \<open>The simple name validator, quoted branch\<close>

text \<open>
  C1. For a string that begins with a double quote, simple\_sql\_name should accept
  exactly when the string also ends with a double quote, has length at least 2 and has
  its interior quotes in adjacent pairs only. The string \<^verbatim>\<open>"ab""cd"\<close> meets all of this,
  and the code rejects it: after the first quote of the pair the loop counts \<open>len\<close> down
  twice but moves \<open>cp\<close> once, so that the final test reads the byte \<open>c\<close>.
\<close>

theorem doubled_quotes_rejected:
  "spec_quoted_simple_name ''\"ab\"\"cd\"''
   \<and> dbms_assert_simple_sql_name (Some ''\"ab\"\"cd\"'') = Inl (Ereport ISNOT_SIMPLE_SQL_NAME)"
  by (simp add: spec_quoted_simple_name_def interior_def dquote_def
      dbms_assert_simple_sql_name_def EMPTY_STR_def check_sql_name_def)

text \<open>
  The same slip lets a string pass that neither ends with a quote nor has its interior
  quotes paired.
\<close>

lemma unpaired_quotes_accepted:
  "\<not> spec_quoted_simple_name ''\"a\"b\"c''
   \<and> dbms_assert_simple_sql_name (Some ''\"a\"b\"c'') = Inr ''\"a\"b\"c''"
  by (simp add: spec_quoted_simple_name_def interior_def dquote_def
      dbms_assert_simple_sql_name_def EMPTY_STR_def check_sql_name_def)

text \<open>
  C9. On a string that begins with a double quote, check\_sql\_name should read only
  bytes among the \<open>len\<close> bytes it is given. On the one-byte string \<^verbatim>\<open>"\<close> the quoted
  branch sets \<open>len\<close> to \<open>-1\<close>, skips the loop and then tests \<^verbatim>\<open>*cp\<close> at offset 1, one
  byte behind the datum.
\<close>

theorem single_quote_reads_past_end:
  "check_sql_name [dquote] (int (length [dquote])) = Inl ReadPastEnd
   \<and> dbms_assert_simple_sql_name (Some [dquote]) = Inl ReadPastEnd"
  by (simp add: dbms_assert_simple_sql_name_def EMPTY_STR_def check_sql_name_def)

text \<open>With two bytes or more, every read of the quoted branch stays inside the datum.\<close>

lemma check_quoted_in_bounds:
  "0 < length cp \<Longrightarrow> len < int (length cp) \<Longrightarrow> check_quoted cp len \<noteq> Inl ReadPastEnd"
proof (induction cp len rule: check_quoted.induct)
  case (1 len)
  then show ?case by simp
next
  case (2 c cp len)
  show ?case
  proof (cases "len > 0")
    case False
    then show ?thesis by simp
  next
    case True
    with "2.prems" have ne: "0 < length cp" by (cases cp) simp_all
    show ?thesis
    proof (cases "c = dquote")
      case q: True
      show ?thesis
      proof (cases "len - 1 = 0")
        case True
        with q \<open>len > 0\<close> show ?thesis by simp
      next
        case False
        with "2.prems" \<open>len > 0\<close> have "len - 2 < int (length cp)" by simp
        with "2.IH"(1) [OF \<open>len > 0\<close> q False _ ne] q show ?thesis
          using \<open>len > 0\<close> False by simp
      qed
    next
      case False
      with "2.prems" \<open>len > 0\<close> have "len - 1 < int (length cp)" by simp
      with "2.IH"(2) [OF \<open>len > 0\<close> False ne] False show ?thesis
        using \<open>len > 0\<close> by simp
    qed
  qed
qed

lemma check_sql_name_in_bounds:
  "2 \<le> length s \<Longrightarrow> check_sql_name s (int (length s)) \<noteq> Inl ReadPastEnd"
proof (cases s)
  case Nil
  assume "2 \<le> length s"
  with Nil show ?thesis by simp
next
  case (Cons c cp)
  assume "2 \<le> length s"
  with Cons have "0 < length cp" "int (length s) - 2 < int (length cp)"
    by (cases cp; simp)+
  then have "check_quoted cp (int (length s) - 2) \<noteq> Inl ReadPastEnd"
    by (rule check_quoted_in_bounds)
  moreover have "check_unquoted s (int (length s)) \<noteq> Inl ReadPastEnd"
    by (simp add: check_unquoted_all)
  ultimately show ?thesis
    using Cons by (simp add: check_sql_name_def)
qed

subsection \<open>The literal encoder\<close>

lemma paired_other: "c \<noteq> q \<Longrightarrow> paired q (c # cs) = paired q cs"
  by (cases cs) simp_all

lemma paired_double_squotes: "paired squote (double_squotes x)"
  by (induction x) (simp_all add: paired_other)

lemma double_squotes_others:
  "filter (\<lambda>c. c \<noteq> squote) (double_squotes x) = filter (\<lambda>c. c \<noteq> squote) x"
  by (induction x) simp_all

lemma double_squotes_count:
  "count_list (double_squotes x) squote = 2 * count_list x squote"
  by (induction x) simp_all

text \<open>
  C8. For every string \<open>x\<close>, enquote\_literal yields \<open>x\<close> wrapped in single quotes with
  every single quote of \<open>x\<close> doubled and nothing else changed: the result starts and ends
  with a single quote, the quotes between these two come in pairs only and are twice
  as many as in \<open>x\<close>, and the other bytes (control characters and backslashes among them) are those of \<open>x\<close>, in order.
  \<^verbatim>\<open>O'Brien\<close> becomes \<^verbatim>\<open>'O''Brien'\<close>.
\<close>

theorem enquote_literal_wraps:
  "dbms_assert_enquote_literal x = squote # double_squotes x @ [squote]
   \<and> hd (dbms_assert_enquote_literal x) = squote
   \<and> last (dbms_assert_enquote_literal x) = squote
   \<and> paired squote (interior (dbms_assert_enquote_literal x))
   \<and> count_list (interior (dbms_assert_enquote_literal x)) squote = 2 * count_list x squote
   \<and> filter (\<lambda>c. c \<noteq> squote) (interior (dbms_assert_enquote_literal x))
       = filter (\<lambda>c. c \<noteq> squote) x
   \<and> dbms_assert_enquote_literal (''O'' @ [squote] @ ''Brien'')
       = [squote] @ ''O'' @ [squote, squote] @ ''Brien'' @ [squote]"
proof -
  have ex: "dbms_assert_enquote_literal (''O'' @ [squote] @ ''Brien'')
      = [squote] @ ''O'' @ [squote, squote] @ ''Brien'' @ [squote]"
    by (simp add: dbms_assert_enquote_literal_def quote_literal_def squote_def)
  have "interior (dbms_assert_enquote_literal x) = double_squotes x"
    by (simp add: dbms_assert_enquote_literal_def quote_literal_def interior_def)
  with ex show ?thesis
    by (simp add: paired_double_squotes double_squotes_others double_squotes_count)
      (simp add: dbms_assert_enquote_literal_def quote_literal_def)
qed

subsection \<open>The parts of a qualified name\<close>

lemma unquoted_name_suffix: "unquoted_name p = Some n \<Longrightarrow> \<exists>a. p = a @ n"
proof (induction p arbitrary: n)
  case Nil
  then show ?case by simp
next
  case (Cons c p)
  show ?case
  proof (cases "c \<noteq> NUL \<and> c \<noteq> CHR ''.'' \<and> \<not> isspace c")
    case True
    with Cons.prems have "unquoted_name p = Some n"
      by (simp split: if_splits)
    then obtain a where "p = a @ n" using Cons.IH by blast
    then have "c # p = (c # a) @ n" by simp
    then show ?thesis by blast
  next
    case False
    with Cons.prems have "n = c # p" by auto
    then show ?thesis by simp
  qed
qed

lemma next_part_unquoted_nonempty:
  assumes "next_part p = Some (Unquoted t, n)"
  shows "t \<noteq> []"
proof -
  from assms have u: "unquoted_name p = Some n" "n \<noteq> p"
    and t: "t = take (length p - length n) p"
    by (auto simp: next_part_def split: if_splits option.splits)
  from u(1) obtain a where a: "p = a @ n" using unquoted_name_suffix by blast
  with u(2) have "a \<noteq> []" by auto
  with a t show ?thesis by simp
qed

lemma parse_loop_unquoted_nonempty:
  "parse_loop p = Some pts \<Longrightarrow> Unquoted t \<in> set pts \<Longrightarrow> t \<noteq> []"
proof (induction p arbitrary: pts rule: parse_loop.induct)
  case (1 nextp)
  from "1.prems"(1) obtain pt nextp1 where np: "next_part nextp = Some (pt, nextp1)"
    by (auto simp: parse_loop.simps [of nextp] split: option.splits)
  define nextp2 where "nextp2 = skip_space nextp1"
  show ?case
  proof (cases "deref nextp2 = CHR ''.''")
    case True
    with "1.prems"(1) np obtain rest where
      r: "parse_loop (skip_space (tl nextp2)) = Some rest" and pts: "pts = pt # rest"
      by (auto simp: parse_loop.simps [of nextp] nextp2_def Let_def split: option.splits)
    from "1.prems"(2) pts consider "pt = Unquoted t" | "Unquoted t \<in> set rest" by auto
    then show ?thesis
    proof cases
      case 1
      with np show ?thesis using next_part_unquoted_nonempty by blast
    next
      case 2
      from "1.IH" [OF np refl nextp2_def True r 2] show ?thesis .
    qed
  next
    case False
    with "1.prems"(1) np have "pts = [pt]"
      by (auto simp: parse_loop.simps [of nextp] nextp2_def Let_def split: if_splits)
    with "1.prems"(2) have "pt = Unquoted t" by simp
    with np show ?thesis using next_part_unquoted_nonempty by blast
  qed
qed

text \<open>
  C2, as claimed: every part of a successfully parsed name has non-empty text, and an
  empty quoted segment \<^verbatim>\<open>""\<close> is rejected. The parser accepts \<^verbatim>\<open>""\<close>, with one quoted
  part whose text is empty: only the unquoted branch tests for an empty name ("empty
  unquoted name not allowed").
\<close>

theorem empty_quoted_part_accepted:
  "parse_names (text_to_cstring ''\"\"'') = Some [Quoted []]
   \<and> part_text (Quoted []) = []
   \<and> ParseIdentifierString (text_to_cstring ''\"\"'')
   \<and> dbms_assert_qualified_sql_name (Some ''\"\"'') = Inr ''\"\"''"
  by code_simp

text \<open>
  C2, amended. For every string on which the parser succeeds, each unquoted part
  contains at least one byte. (The text of a quoted part may be empty.)
\<close>

theorem unquoted_parts_nonempty:
  assumes "parse_names (text_to_cstring s) = Some pts" and "pt \<in> set pts"
    and "\<not> was_quoted pt"
  shows "part_text pt \<noteq> []"
proof -
  from assms(3) obtain t where pt: "pt = Unquoted t" by (cases pt) auto
  from assms(1,2) have "parse_loop (skip_space (text_to_cstring s)) = Some pts"
    by (auto simp: parse_names_def Let_def split: if_splits)
  with assms(2) pt have "t \<noteq> []" using parse_loop_unquoted_nonempty by blast
  with pt show ?thesis by simp
qed

theorem unquoted_parts_nonempty_witness:
  "parse_names (text_to_cstring ''schema.table'') = Some [Unquoted ''schema'', Unquoted ''table'']
   \<and> Unquoted ''schema'' \<in> set [Unquoted ''schema'', Unquoted ''table'']
   \<and> \<not> was_quoted (Unquoted ''schema'')
   \<and> part_text (Unquoted ''schema'') \<noteq> []"
proof -
  have h1: "parse_names (text_to_cstring ''schema.table'')
      = Some [Unquoted ''schema'', Unquoted ''table'']"
    by code_simp
  have h2: "Unquoted ''schema'' \<in> set [Unquoted ''schema'', Unquoted ''table'']"
    by simp
  have h3: "\<not> was_quoted (Unquoted ''schema'')"
    by simp
  have "part_text (Unquoted ''schema'') \<noteq> []"
    by (rule unquoted_parts_nonempty [OF h1 h2 h3])
  with h1 h2 h3 show ?thesis by blast
qed

subsection \<open>Empty segments and trailing dots\<close>

lemma skip_space_dropWhile: "skip_space p = dropWhile isspace p"
  by (induction p) auto

lemma isspace_not_dquote: "isspace c \<Longrightarrow> c \<noteq> dquote"
  by (auto simp: isspace_def dquote_def)

lemma isspace_not_dot: "\<not> isspace (CHR ''.'')"
  by (simp add: isspace_def)

lemma simple_char_not_dquote: "simple_char c \<Longrightarrow> c \<noteq> dquote"
  by (auto simp: simple_char_def isalnum_def dquote_def)

lemma count_dropWhile_space:
  "count_list (dropWhile isspace x) dquote = count_list x dquote"
  by (induction x) (auto dest: isspace_not_dquote)

lemma strchr_None: "c \<notin> set p \<Longrightarrow> strchr p c = None"
  by (induction p) auto

lemma strchr_first: "c \<notin> set a \<Longrightarrow> strchr (a @ c # b) c = Some (c # b)"
  by (induction a) auto

lemma quoted_name_tail:
  assumes "odd (count_list x dquote) \<or> dquote \<notin> set T" and "T = CHR ''.'' # T'"
  shows "quoted_name nm (x @ T) = None
    \<or> (\<exists>t x'. quoted_name nm (x @ T) = Some (t, x' @ T) \<and> length x' < length x
          \<and> set x' \<subseteq> set x \<and> sep_inv T x')"
  using assms
proof (induction "length x" arbitrary: x nm rule: less_induct)
  case less
  show ?case
  proof (cases "dquote \<in> set x")
    case False
    then have "count_list x dquote = 0" by (simp add: count_list_0_iff)
    with less.prems have "dquote \<notin> set T" by simp
    with False have "strchr (x @ T) dquote = None" by (simp add: strchr_None)
    then show ?thesis by (simp add: quoted_name.simps [of nm "x @ T"])
  next
    case True
    then obtain a b where x: "x = a @ dquote # b" and a: "dquote \<notin> set a"
      by (auto dest: split_list_first)
    have s: "strchr (x @ T) dquote = Some (dquote # b @ T)"
      using strchr_first [OF a, of "b @ T"] x by simp
    have cnt: "count_list x dquote = Suc (count_list b dquote)"
      using x a by (simp add: count_list_0_iff)
    show ?thesis
    proof (cases b)
      case Nil
      with less.prems(2) have "deref (tl (dquote # b @ T)) \<noteq> dquote"
        by (simp add: deref_def dquote_def)
      with s have "\<exists>t. quoted_name nm (x @ T) = Some (t, tl (dquote # b @ T))"
        by (simp add: quoted_name.simps [of nm "x @ T"] Let_def)
      with Nil have "\<exists>t. quoted_name nm (x @ T) = Some (t, [] @ T)"
        by simp
      moreover have "length ([] :: string) < length x" "set ([] :: string) \<subseteq> set x"
        using x by simp_all
      moreover have "sep_inv T []"
        by (simp add: sep_inv_def)
      ultimately show ?thesis by blast
    next
      case (Cons d b')
      show ?thesis
      proof (cases "d = dquote")
        case False
        with Cons have "deref (tl (dquote # b @ T)) \<noteq> dquote"
          by (simp add: deref_def)
        with s have "\<exists>t. quoted_name nm (x @ T) = Some (t, b @ T)"
          by (simp add: quoted_name.simps [of nm "x @ T"] Let_def)
        moreover have "length b < length x" "set b \<subseteq> set x"
          using x by auto
        moreover have "sep_inv T b"
          using less.prems(1) cnt by (auto simp: sep_inv_def)
        ultimately show ?thesis by blast
      next
        case True
        with Cons have "deref (tl (dquote # b @ T)) = dquote"
          by (simp add: deref_def)
        with s Cons have q: "quoted_name nm (x @ T) =
            quoted_name ((nm @ take (length (x @ T) - length (dquote # b @ T)) (x @ T)) @ [dquote])
              (b' @ T)"
          by (simp add: quoted_name.simps [of nm "x @ T"] Let_def)
        have len: "length b' < length x" using x Cons by simp
        have "odd (count_list b' dquote) \<or> dquote \<notin> set T"
          using less.prems(1) cnt Cons True by auto
        from less.hyps [OF len this less.prems(2)] q
        show ?thesis using x Cons by fastforce
      qed
    qed
  qed
qed

lemma unquoted_name_tail:
  assumes "T = CHR ''.'' # T'"
  shows "unquoted_name (x @ T) = None
    \<or> (\<exists>a x'. unquoted_name (x @ T) = Some (x' @ T) \<and> x = a @ x' \<and> dquote \<notin> set a)"
proof (induction x)
  case Nil
  from assms show ?case by simp
next
  case (Cons c x)
  show ?case
  proof (cases "c \<noteq> NUL \<and> c \<noteq> CHR ''.'' \<and> \<not> isspace c")
    case False
    then have "unquoted_name ((c # x) @ T) = Some ((c # x) @ T)" by auto
    then show ?thesis by fastforce
  next
    case stop: True
    show ?thesis
    proof (cases "simple_char c")
      case False
      with stop have "unquoted_name ((c # x) @ T) = None"
        by (simp add: simple_char_def)
      then show ?thesis by simp
    next
      case True
      with stop have u: "unquoted_name ((c # x) @ T) = unquoted_name (x @ T)"
        by (auto simp: simple_char_def)
      from Cons.IH show ?thesis
      proof
        assume "unquoted_name (x @ T) = None"
        with u show ?thesis by simp
      next
        assume "\<exists>a x'. unquoted_name (x @ T) = Some (x' @ T) \<and> x = a @ x' \<and> dquote \<notin> set a"
        then obtain a x' where "unquoted_name (x @ T) = Some (x' @ T)" "x = a @ x'"
          "dquote \<notin> set a" by blast
        with u True have "unquoted_name ((c # x) @ T) = Some (x' @ T)"
          "c # x = (c # a) @ x'" "dquote \<notin> set (c # a)"
          by (auto dest: simple_char_not_dquote)
        then show ?thesis by blast
      qed
    qed
  qed
qed

lemma next_part_tail:
  assumes "sep_inv T p" and "T = CHR ''.'' # T'"
  shows "next_part (p @ T) = None
    \<or> (\<exists>pt x. next_part (p @ T) = Some (pt, x @ T) \<and> length x < length p
          \<and> set x \<subseteq> set p \<and> sep_inv T x)"
proof (cases "deref (p @ T) = dquote")
  case True
  with assms(2) obtain p1 where p: "p = dquote # p1"
    by (cases p) (auto simp: deref_def dquote_def)
  with assms(1) have "odd (count_list p1 dquote) \<or> dquote \<notin> set T"
    by (auto simp: sep_inv_def)
  from quoted_name_tail [OF this assms(2), of "[]"] show ?thesis
  proof
    assume "quoted_name [] (p1 @ T) = None"
    with True p show ?thesis by (simp add: next_part_def)
  next
    assume "\<exists>t x'. quoted_name [] (p1 @ T) = Some (t, x' @ T) \<and> length x' < length p1
          \<and> set x' \<subseteq> set p1 \<and> sep_inv T x'"
    then obtain t x' where "quoted_name [] (p1 @ T) = Some (t, x' @ T)"
      "length x' < length p1" "set x' \<subseteq> set p1" "sep_inv T x'" by blast
    with True p have "next_part (p @ T) = Some (Quoted t, x' @ T)" "length x' < length p"
      "set x' \<subseteq> set p" "sep_inv T x'"
      by (auto simp: next_part_def)
    then show ?thesis by blast
  qed
next
  case False
  from unquoted_name_tail [OF assms(2), of p] show ?thesis
  proof
    assume "unquoted_name (p @ T) = None"
    with False show ?thesis by (simp add: next_part_def)
  next
    assume "\<exists>a x'. unquoted_name (p @ T) = Some (x' @ T) \<and> p = a @ x' \<and> dquote \<notin> set a"
    then obtain a x' where u: "unquoted_name (p @ T) = Some (x' @ T)" and p: "p = a @ x'"
      and a: "dquote \<notin> set a" by blast
    show ?thesis
    proof (cases "a = []")
      case True
      with u p False show ?thesis by (simp add: next_part_def)
    next
      case ne: False
      with p have "x' @ T \<noteq> p @ T" by auto
      with u False have "\<exists>pt. next_part (p @ T) = Some (pt, x' @ T)"
        by (simp add: next_part_def)
      moreover from p ne have "length x' < length p" "set x' \<subseteq> set p" by auto
      moreover from p a assms(1) have "sep_inv T x'"
        by (simp add: sep_inv_def count_list_0_iff)
      ultimately show ?thesis by blast
    qed
  qed
qed

lemma skip_space_tail:
  assumes "T = CHR ''.'' # T'"
  shows "skip_space (x @ T) = dropWhile isspace x @ T"
  using assms isspace_not_dot by (induction x) auto

lemma sep_inv_dropWhile: "sep_inv T x \<Longrightarrow> sep_inv T (dropWhile isspace x)"
  by (simp add: sep_inv_def count_dropWhile_space)

lemma parse_loop_dot:
  assumes "next_part nextp = Some (pt, n1)" and "deref (skip_space n1) = CHR ''.''"
    and "parse_loop (skip_space (tl (skip_space n1))) = None"
  shows "parse_loop nextp = None"
  using assms by (simp add: parse_loop.simps [of nextp])

lemma parse_loop_other:
  assumes "next_part nextp = Some (pt, n1)" and "deref (skip_space n1) \<noteq> CHR ''.''"
    and "deref (skip_space n1) \<noteq> NUL"
  shows "parse_loop nextp = None"
  using assms by (simp add: parse_loop.simps [of nextp])

lemma parse_loop_tail:
  assumes "NUL \<notin> set p" and "sep_inv T p" and "T = CHR ''.'' # T'"
    and "parse_loop (skip_space T') = None"
  shows "parse_loop (p @ T) = None"
  using assms(1,2)
proof (induction "length p" arbitrary: p rule: less_induct)
  case less
  from next_part_tail [OF less.prems(2) assms(3)] show ?case
  proof
    assume "next_part (p @ T) = None"
    then show ?thesis by (simp add: parse_loop.simps [of "p @ T"])
  next
    assume "\<exists>pt x. next_part (p @ T) = Some (pt, x @ T) \<and> length x < length p
          \<and> set x \<subseteq> set p \<and> sep_inv T x"
    then obtain pt x where np: "next_part (p @ T) = Some (pt, x @ T)"
      and x: "length x < length p" "set x \<subseteq> set p" "sep_inv T x" by blast
    define y where "y = dropWhile isspace x"
    have n2: "skip_space (x @ T) = y @ T"
      using skip_space_tail [OF assms(3)] y_def by simp
    have y: "length y \<le> length x" "set y \<subseteq> set x" "sep_inv T y"
      using x(3) by (auto simp: y_def length_dropWhile_le sep_inv_dropWhile dest: set_dropWhileD)
    show ?thesis
    proof (cases y)
      case Nil
      with n2 assms(3) have "deref (skip_space (x @ T)) = CHR ''.''"
        "tl (skip_space (x @ T)) = T'"
        by (simp_all add: deref_def)
      with np assms(4) show ?thesis
        using parse_loop_dot [of "p @ T" pt "x @ T"] by simp
    next
      case (Cons c y1)
      with y(2) x(2) less.prems(1) have cN: "c \<noteq> NUL" by auto
      from Cons n2 have d: "deref (skip_space (x @ T)) = c"
        by (simp add: deref_def)
      show ?thesis
      proof (cases "c = CHR ''.''")
        case False
        with cN d np show ?thesis
          using parse_loop_other [of "p @ T" pt "x @ T"] by simp
      next
        case True
        define z where "z = dropWhile isspace y1"
        have "skip_space (tl (y @ T)) = z @ T"
          using skip_space_tail [OF assms(3)] z_def Cons by simp
        moreover have "length z < length p"
          using Cons y(1) x(1) length_dropWhile_le [of isspace y1] by (simp add: z_def)
        moreover have "NUL \<notin> set z"
          using Cons y(2) x(2) less.prems(1) by (auto simp: z_def dest: set_dropWhileD)
        moreover have "sep_inv T z"
        proof -
          have "count_list y dquote = count_list y1 dquote"
            using Cons True by (simp add: dquote_def)
          with y(3) show ?thesis
            by (simp add: z_def sep_inv_def count_dropWhile_space)
        qed
        ultimately have "parse_loop (skip_space (tl (y @ T))) = None"
          using less.hyps by simp
        with True d n2 np show ?thesis
          using parse_loop_dot [of "p @ T" pt "x @ T"] by simp
      qed
    qed
  qed
qed

lemma parse_loop_at_dot: "parse_loop (CHR ''.'' # r) = None"
  by (simp add: parse_loop.simps [of "CHR ''.'' # r"] next_part_def deref_def dquote_def
      NUL_def isspace_def)

lemma parse_loop_at_end: "parse_loop [] = None"
  by (simp add: parse_loop.simps [of "[]"] next_part_def deref_def dquote_def NUL_def)

lemma parse_names_tail:
  assumes "NUL \<notin> set p" and "sep_inv T p" and "T = CHR ''.'' # T'"
    and "parse_loop (skip_space T') = None"
  shows "parse_names (p @ T) = None"
proof -
  define y where "y = dropWhile isspace p"
  have n: "skip_space (p @ T) = y @ T"
    using skip_space_tail [OF assms(3)] y_def by simp
  have y: "NUL \<notin> set y" "sep_inv T y"
    using assms(1,2) by (auto simp: y_def sep_inv_dropWhile dest: set_dropWhileD)
  then have "deref (y @ T) \<noteq> NUL"
    using assms(3) by (cases y) (auto simp: deref_def NUL_def)
  moreover have "parse_loop (y @ T) = None"
    using y assms(3,4) by (rule parse_loop_tail)
  ultimately show ?thesis
    using n by (simp add: parse_names_def)
qed

lemma text_to_cstring_prefix:
  "NUL \<notin> set p \<Longrightarrow> c \<noteq> NUL \<Longrightarrow> text_to_cstring (p @ c # r) = p @ c # text_to_cstring r"
  by (induction p) (auto simp: text_to_cstring_def)

lemma not_parsed_rejected:
  "parse_names (text_to_cstring s) = None
   \<Longrightarrow> dbms_assert_qualified_sql_name (Some s) = Inl (Ereport ISNOT_QUALIFIED_SQL_NAME)"
  by (simp add: dbms_assert_qualified_sql_name_def ParseIdentifierString_def)

lemma empty_segment_not_parsed:
  assumes "NUL \<notin> set p" and "even (count_list p dquote)" and "list_all isspace w"
  shows "parse_names (text_to_cstring (p @ ''.'' @ w @ ''.'' @ r)) = None"
proof -
  have w: "NUL \<notin> set w"
    using assms(3) isspace_not_NUL by (auto simp: list_all_iff)
  have dot: "CHR ''.'' \<noteq> NUL" by (simp add: NUL_def)
  have "text_to_cstring (p @ ''.'' @ w @ ''.'' @ r)
      = p @ CHR ''.'' # w @ CHR ''.'' # text_to_cstring r"
    using text_to_cstring_prefix [OF assms(1) dot, of "w @ CHR ''.'' # r"]
      text_to_cstring_prefix [OF w dot, of r] by simp
  moreover have "skip_space (w @ CHR ''.'' # text_to_cstring r) = CHR ''.'' # text_to_cstring r"
    using assms(3) by (induction w) (simp_all add: isspace_not_dot)
  then have "parse_loop (skip_space (w @ CHR ''.'' # text_to_cstring r)) = None"
    by (simp add: parse_loop_at_dot)
  then have "parse_names (p @ CHR ''.'' # w @ CHR ''.'' # text_to_cstring r) = None"
    using assms(1,2) by (intro parse_names_tail) (simp_all add: sep_inv_def)
  ultimately show ?thesis by simp
qed

lemma trailing_dot_not_parsed:
  assumes "NUL \<notin> set p" and "list_all isspace w"
  shows "parse_names (text_to_cstring (p @ ''.'' @ w)) = None"
proof -
  have w: "NUL \<notin> set w" "dquote \<notin> set w"
    using assms(2) isspace_not_NUL isspace_not_dquote by (auto simp: list_all_iff)
  have dot: "CHR ''.'' \<noteq> NUL" by (simp add: NUL_def)
  have "text_to_cstring (p @ ''.'' @ w) = p @ CHR ''.'' # w"
    using text_to_cstring_prefix [OF assms(1) dot, of w] text_to_cstring_id [OF w(1)] by simp
  moreover have "parse_loop (skip_space w) = None"
    using assms(2) by (simp add: skip_space_all parse_loop_at_end)
  then have "parse_names (p @ CHR ''.'' # w) = None"
    using assms(1) w(2) by (intro parse_names_tail) (simp_all add: sep_inv_def dquote_def)
  ultimately show ?thesis by simp
qed

text \<open>
  C5. The parser splits \<^verbatim>\<open>schema.table\<close> into exactly the two parts \<^verbatim>\<open>schema\<close> and
  \<^verbatim>\<open>table\<close>. Every input with an empty segment between two separator dots (a dot that
  is outside any quoted name, having an even number of double quotes in front of it;
  then only whitespace; then a dot), such as \<^verbatim>\<open>schema..table\<close>, and every input that ends
  with a dot (and possibly whitespace behind it), such as \<^verbatim>\<open>schema.\<close>, makes
  qualified\_sql\_name fail with ISNOT\_QUALIFIED\_SQL\_NAME. A \<^verbatim>\<open>text\<close> value holds no
  NUL byte; the hypothesis says so for the bytes in front of the dot.
\<close>

theorem qualified_name_segments:
  "parse_names (text_to_cstring ''schema.table'') = Some [Unquoted ''schema'', Unquoted ''table'']
   \<and> (NUL \<notin> set p \<and> even (count_list p dquote) \<and> list_all isspace w \<longrightarrow>
        dbms_assert_qualified_sql_name (Some (p @ ''.'' @ w @ ''.'' @ r))
          = Inl (Ereport ISNOT_QUALIFIED_SQL_NAME))
   \<and> (NUL \<notin> set p \<and> list_all isspace w \<longrightarrow>
        dbms_assert_qualified_sql_name (Some (p @ ''.'' @ w))
          = Inl (Ereport ISNOT_QUALIFIED_SQL_NAME))"
proof (intro conjI impI)
  show "parse_names (text_to_cstring ''schema.table'')
      = Some [Unquoted ''schema'', Unquoted ''table'']"
    by code_simp
next
  assume "NUL \<notin> set p \<and> even (count_list p dquote) \<and> list_all isspace w"
  then have "parse_names (text_to_cstring (p @ ''.'' @ w @ ''.'' @ r)) = None"
    using empty_segment_not_parsed by blast
  then show "dbms_assert_qualified_sql_name (Some (p @ ''.'' @ w @ ''.'' @ r))
      = Inl (Ereport ISNOT_QUALIFIED_SQL_NAME)"
    by (rule not_parsed_rejected)
next
  assume "NUL \<notin> set p \<and> list_all isspace w"
  then have "parse_names (text_to_cstring (p @ ''.'' @ w)) = None"
    using trailing_dot_not_parsed by blast
  then show "dbms_assert_qualified_sql_name (Some (p @ ''.'' @ w))
      = Inl (Ereport ISNOT_QUALIFIED_SQL_NAME)"
    by (rule not_parsed_rejected)
qed

theorem qualified_name_segments_witness:
  "NUL \<notin> set ''schema'' \<and> even (count_list ''schema'' dquote) \<and> list_all isspace []
   \<and> dbms_assert_qualified_sql_name (Some ''schema..table'') = Inl (Ereport ISNOT_QUALIFIED_SQL_NAME)
   \<and> dbms_assert_qualified_sql_name (Some ''schema.'') = Inl (Ereport ISNOT_QUALIFIED_SQL_NAME)"
proof -
  have h: "NUL \<notin> set ''schema''" "even (count_list ''schema'' dquote)" "list_all isspace []"
    by (simp_all add: NUL_def dquote_def)
  with qualified_name_segments [of "''schema''" "[]" "''table''"] show ?thesis
    by simp
qed

end
